theory Spec2Isabelle
  imports Main "HOL-Library.Multiset"
begin

section \<open>A separate-chaining hash table with automatic resizing\<close>

text \<open>
  The development embeds \<^verbatim>\<open>src/hash_table.py\<close>. Python objects are mutable; here every
  method takes the table and returns it, together with the exception that left the method,
  if any. A method that raises half-way keeps the writes it had made before.

  Python's \<^verbatim>\<open>hash\<close> is a parameter \<open>h\<close> of every operation: a function from keys to
  (unbounded, possibly negative) integers. Key comparison \<^verbatim>\<open>==\<close> is HOL equality, so equal
  keys have equal hashes, as Python demands of a hashable type.
\<close>

subsection \<open>Data\<close>

datatype error = KeyError | ZeroDivisionError

text \<open>The dataclass \<^verbatim>\<open>_Item\<close>; its field \<^verbatim>\<open>value\<close> is called \<open>val\<close>.\<close>

record ('k, 'v) item =
  key :: 'k
  val :: 'v

text \<open>The attributes \<^verbatim>\<open>_table\<close> and \<^verbatim>\<open>_count_items\<close> of a \<^verbatim>\<open>HashTable\<close>.\<close>

record ('k, 'v) hash_table =
  table :: "('k, 'v) item list list"
  count_items :: int

type_synonym 'k hash = "'k \<Rightarrow> int"

type_synonym ('k, 'v) outcome = "error option \<times> ('k, 'v) hash_table"

definition INITIAL_SIZE :: nat where
  "INITIAL_SIZE = 4"

definition RESIZE_MUL :: int where
  "RESIZE_MUL = 2"

subsection \<open>Iteration and list primitives\<close>

text \<open>
  A \<^verbatim>\<open>for\<close> loop whose body mutates the state and may raise: the first exception ends the
  loop and leaves the state as the body left it.
\<close>

fun for_each :: "('s \<Rightarrow> 'a \<Rightarrow> error option \<times> 's) \<Rightarrow> 'a list \<Rightarrow> 's \<Rightarrow> error option \<times> 's" where
  "for_each body [] s = (None, s)"
| "for_each body (x # xs) s =
     (case body s x of
        (None, s') \<Rightarrow> for_each body xs s'
      | (Some e, s') \<Rightarrow> (Some e, s'))"

text \<open>\<^verbatim>\<open>del xs[i]\<close> for an index in range.\<close>

definition del_at :: "nat \<Rightarrow> 'a list \<Rightarrow> 'a list" where
  "del_at i xs = take i xs @ drop (Suc i) xs"

subsection \<open>Index computation and chain search\<close>

text \<open>
  \<^verbatim>\<open>_get_index\<close>: Python's \<^verbatim>\<open>%\<close> with a positive right operand is HOL's \<open>mod\<close> on
  \<open>int\<close> (the result is in \<open>[0, len)\<close>); with a zero right operand it raises.
\<close>

definition get_index :: "'k hash \<Rightarrow> ('k, 'v) hash_table \<Rightarrow> 'k \<Rightarrow> error + nat" where
  "get_index h t k =
     (let hash_value = h k in
      if length (table t) = 0 then Inl ZeroDivisionError
      else Inr (nat (hash_value mod int (length (table t)))))"

text \<open>The \<^verbatim>\<open>for sub_index, item in enumerate(items)\<close> loop of \<^verbatim>\<open>_find\<close>, counting from \<open>j\<close>.\<close>

fun find_sub :: "('k, 'v) item list \<Rightarrow> 'k \<Rightarrow> nat \<Rightarrow> nat option" where
  "find_sub [] k j = None"
| "find_sub (it # its) k j = (if key it = k then Some j else find_sub its k (Suc j))"

definition find_ht :: "'k hash \<Rightarrow> ('k, 'v) hash_table \<Rightarrow> 'k \<Rightarrow> error + (nat \<times> nat)" where
  "find_ht h t k =
     (case get_index h t k of
        Inl e \<Rightarrow> Inl e
      | Inr index \<Rightarrow>
          (case find_sub (table t ! index) k 0 of
             Some sub_index \<Rightarrow> Inr (index, sub_index)
           | None \<Rightarrow> Inl KeyError))"

subsection \<open>Insert-or-update and resize\<close>

text \<open>
  \<^verbatim>\<open>_update\<close> calls \<^verbatim>\<open>_resize\<close> when its flag is set, and \<^verbatim>\<open>_resize\<close> calls
  \<^verbatim>\<open>_update\<close> with the flag cleared, so the two are defined together. Only \<^verbatim>\<open>KeyError\<close>
  is caught by \<^verbatim>\<open>_update\<close>; any other exception of \<^verbatim>\<open>_find\<close> leaves the method.
\<close>

function update :: "'k hash \<Rightarrow> ('k, 'v) hash_table \<Rightarrow> 'k \<Rightarrow> 'v \<Rightarrow> bool \<Rightarrow> ('k, 'v) outcome"
  and resize :: "'k hash \<Rightarrow> ('k, 'v) hash_table \<Rightarrow> ('k, 'v) outcome"
where
  "update h t k v rsz =
     (case find_ht h t k of
        Inr (index, sub_index) \<Rightarrow>
          (None, t\<lparr>table := (table t)[index :=
                     (table t ! index)[sub_index := (table t ! index ! sub_index)\<lparr>val := v\<rparr>]]\<rparr>)
      | Inl KeyError \<Rightarrow>
          (let new_item = \<lparr>key = k, val = v\<rparr> in
           case get_index h t k of
             Inl e \<Rightarrow> (Some e, t)
           | Inr index \<Rightarrow>
               (let t1 = t\<lparr>table := (table t)[index := table t ! index @ [new_item]]\<rparr>;
                    t2 = t1\<lparr>count_items := count_items t1 + 1\<rparr>
                in if rsz then resize h t2 else (None, t2)))
      | Inl e \<Rightarrow> (Some e, t))"
| "resize h t =
     (let expected_size = count_items t * RESIZE_MUL;
          new_size =
            (if expected_size > int (length (table t)) then
               Some (int (length (table t)) * RESIZE_MUL)
             else if expected_size * RESIZE_MUL < int (length (table t)) then
               Some (int (length (table t)) div RESIZE_MUL)
             else None)
      in case new_size of
           None \<Rightarrow> (None, t)
         | Some n \<Rightarrow>
             (let old_table = table t;
                  t1 = t\<lparr>table := replicate (nat n) []\<rparr>;
                  t2 = t1\<lparr>count_items := 0\<rparr>
              in for_each
                   (\<lambda>s items. for_each (\<lambda>s item. update h s (key item) (val item) False) items s)
                   old_table t2))"
  by pat_completeness auto

termination
  by (relation "measure (\<lambda>x. case x of
                   Inl (h, t, k, v, rsz) \<Rightarrow> (if rsz then 2 else 0)
                 | Inr (h, t) \<Rightarrow> Suc 0)") auto

declare update.simps [simp del] resize.simps [simp del]

subsection \<open>Lookup and delete\<close>

definition get :: "'k hash \<Rightarrow> ('k, 'v) hash_table \<Rightarrow> 'k \<Rightarrow> error + 'v" where
  "get h t k =
     (case find_ht h t k of
        Inl e \<Rightarrow> Inl e
      | Inr (index, sub_index) \<Rightarrow> Inr (val (table t ! index ! sub_index)))"

definition delete :: "'k hash \<Rightarrow> ('k, 'v) hash_table \<Rightarrow> 'k \<Rightarrow> ('k, 'v) outcome" where
  "delete h t k =
     (case find_ht h t k of
        Inl e \<Rightarrow> (Some e, t)
      | Inr (index, sub_index) \<Rightarrow>
          (let t1 = t\<lparr>table := (table t)[index := del_at sub_index (table t ! index)]\<rparr>;
               t2 = t1\<lparr>count_items := count_items t1 - 1\<rparr>
           in resize h t2))"

subsection \<open>The public interface\<close>

text \<open>
  \<^verbatim>\<open>__init__\<close>: the initial \<^verbatim>\<open>dict\<close> is the list of its pairs in iteration order;
  \<^verbatim>\<open>if initial\<close> is false for \<^verbatim>\<open>None\<close> and for an empty \<^verbatim>\<open>dict\<close>.
\<close>

definition hash_table_init :: "'k hash \<Rightarrow> ('k \<times> 'v) list option \<Rightarrow> ('k, 'v) outcome" where
  "hash_table_init h initial =
     (let t = \<lparr>table = replicate INITIAL_SIZE [], count_items = 0\<rparr> in
      case initial of
        None \<Rightarrow> (None, t)
      | Some kvs \<Rightarrow>
          if kvs = [] then (None, t)
          else for_each (\<lambda>s (k, v). update h s k v True) kvs t)"

definition setitem :: "'k hash \<Rightarrow> ('k, 'v) hash_table \<Rightarrow> 'k \<Rightarrow> 'v \<Rightarrow> ('k, 'v) outcome" where
  "setitem h t k v = update h t k v True"

text \<open>\<^verbatim>\<open>__getitem__\<close> writes nothing: the table it returns is the table it was given.\<close>

definition getitem :: "'k hash \<Rightarrow> ('k, 'v) hash_table \<Rightarrow> 'k \<Rightarrow> (error + 'v) \<times> ('k, 'v) hash_table" where
  "getitem h t k = (get h t k, t)"

definition delitem :: "'k hash \<Rightarrow> ('k, 'v) hash_table \<Rightarrow> 'k \<Rightarrow> ('k, 'v) outcome" where
  "delitem h t k = delete h t k"

definition len :: "('k, 'v) hash_table \<Rightarrow> int" where
  "len t = count_items t"

text \<open>The generator \<^verbatim>\<open>items\<close>, collected into a list.\<close>

definition items :: "('k, 'v) hash_table \<Rightarrow> ('k \<times> 'v) list" where
  "items t = [(key item, val item). items \<leftarrow> table t, item \<leftarrow> items]"

subsection \<open>Reachable tables\<close>

text \<open>
  A table is reachable when a caller can obtain it: from the constructor, and then through
  \<^verbatim>\<open>__setitem__\<close>, \<^verbatim>\<open>__getitem__\<close> and \<^verbatim>\<open>__delitem__\<close>, whether the call returns or
  raises.
\<close>

inductive reachable :: "'k hash \<Rightarrow> ('k, 'v) hash_table \<Rightarrow> bool" for h :: "'k hash" where
  init: "reachable h (snd (hash_table_init h initial))"
| set: "reachable h t \<Longrightarrow> reachable h (snd (setitem h t k v))"
| get: "reachable h t \<Longrightarrow> reachable h (snd (getitem h t k))"
| del: "reachable h t \<Longrightarrow> reachable h (snd (delitem h t k))"

text \<open>A sequence of \<^verbatim>\<open>__setitem__\<close> calls, stopped by the first exception.\<close>

definition set_all :: "'k hash \<Rightarrow> ('k \<times> 'v) list \<Rightarrow> ('k, 'v) hash_table \<Rightarrow> ('k, 'v) outcome" where
  "set_all h kvs t = for_each (\<lambda>s (k, v). setitem h s k v) kvs t"

text \<open>A sequence of \<^verbatim>\<open>__delitem__\<close> calls, stopped by the first exception.\<close>

definition del_all :: "'k hash \<Rightarrow> 'k list \<Rightarrow> ('k, 'v) hash_table \<Rightarrow> ('k, 'v) outcome" where
  "del_all h ks t = for_each (\<lambda>s k. delitem h s k) ks t"

text \<open>
  CPython's \<^verbatim>\<open>hash\<close> on an \<^verbatim>\<open>int\<close> of magnitude below \<open>2\<^sup>6\<^sup>1 - 1\<close>: the number
  itself, except that \<open>-1\<close> hashes to \<open>-2\<close>. It serves as a concrete hash in examples.
\<close>

definition hash_int :: "int hash" where
  "hash_int k = (if k = - 1 then - 2 else k)"

section \<open>Specification vocabulary\<close>

text \<open>The bucket a key belongs to in a table of \<open>n\<close> buckets.\<close>

definition bucket_of :: "'k hash \<Rightarrow> nat \<Rightarrow> 'k \<Rightarrow> nat" where
  "bucket_of h n k = nat (h k mod int n)"

text \<open>All stored items, in bucket order and then chain order.\<close>

definition entries :: "('k, 'v) hash_table \<Rightarrow> ('k, 'v) item list" where
  "entries t = concat (table t)"

text \<open>The finite map a table stands for: the first pair of \<open>items\<close> with a given key.\<close>

definition contents :: "('k, 'v) hash_table \<Rightarrow> 'k \<rightharpoonup> 'v" where
  "contents t = map_of (items t)"

text \<open>
  A well-formed table has at least one bucket, a count equal to the number of stored
  items, no key stored twice, and every item in the bucket its hash selects.
\<close>

definition well_formed :: "'k hash \<Rightarrow> ('k, 'v) hash_table \<Rightarrow> bool" where
  "well_formed h t \<longleftrightarrow>
     0 < length (table t) \<and>
     count_items t = int (length (entries t)) \<and>
     distinct (map key (entries t)) \<and>
     (\<forall>i \<in> {0..<length (table t)}. \<forall>it \<in> set (table t ! i).
        bucket_of h (length (table t)) (key it) = i)"

text \<open>Reachable tables are well formed and at most half full.\<close>

definition invar :: "'k hash \<Rightarrow> ('k, 'v) hash_table \<Rightarrow> bool" where
  "invar h t \<longleftrightarrow> well_formed h t \<and> 2 * count_items t \<le> int (length (table t))"

text \<open>The capacity a resize check leaves, from the count \<open>N\<close> and the capacity \<open>C\<close>.\<close>

definition new_capacity :: "int \<Rightarrow> int \<Rightarrow> int" where
  "new_capacity N C = (if N * 2 > C then C * 2 else if N * 4 < C then C div 2 else C)"

text \<open>
  Names for the three writes of the source: the assignment to \<^verbatim>\<open>.value\<close>, the
  \<^verbatim>\<open>append\<close> with its increment, and the \<^verbatim>\<open>del\<close> with its decrement.
\<close>

definition set_val :: "('k, 'v) hash_table \<Rightarrow> nat \<Rightarrow> nat \<Rightarrow> 'v \<Rightarrow> ('k, 'v) hash_table" where
  "set_val t i j v = t\<lparr>table := (table t)[i := (table t ! i)[j := (table t ! i ! j)\<lparr>val := v\<rparr>]]\<rparr>"

definition append_item :: "('k, 'v) hash_table \<Rightarrow> nat \<Rightarrow> 'k \<Rightarrow> 'v \<Rightarrow> ('k, 'v) hash_table" where
  "append_item t i k v =
     t\<lparr>table := (table t)[i := table t ! i @ [\<lparr>key = k, val = v\<rparr>]], count_items := count_items t + 1\<rparr>"

definition remove_item :: "('k, 'v) hash_table \<Rightarrow> nat \<Rightarrow> nat \<Rightarrow> ('k, 'v) hash_table" where
  "remove_item t i j =
     t\<lparr>table := (table t)[i := del_at j (table t ! i)], count_items := count_items t - 1\<rparr>"

text \<open>The rehash loop of \<^verbatim>\<open>_resize\<close> over a flat list of items.\<close>

definition reinsert :: "'k hash \<Rightarrow> ('k, 'v) item list \<Rightarrow> ('k, 'v) hash_table \<Rightarrow> ('k, 'v) outcome" where
  "reinsert h its s = for_each (\<lambda>s item. update h s (key item) (val item) False) its s"

text \<open>The items before and after position \<open>j\<close> of bucket \<open>i\<close>.\<close>

definition pre :: "('k, 'v) hash_table \<Rightarrow> nat \<Rightarrow> nat \<Rightarrow> ('k, 'v) item list" where
  "pre t i j = concat (take i (table t)) @ take j (table t ! i)"

definition post :: "('k, 'v) hash_table \<Rightarrow> nat \<Rightarrow> nat \<Rightarrow> ('k, 'v) item list" where
  "post t i j = drop (Suc j) (table t ! i) @ concat (drop (Suc i) (table t))"

section \<open>Auxiliary lemmas\<close>

lemma well_formed_iff:
  "well_formed h t \<longleftrightarrow>
     0 < length (table t) \<and>
     count_items t = int (length (entries t)) \<and>
     distinct (map key (entries t)) \<and>
     (\<forall>i < length (table t). \<forall>it \<in> set (table t ! i). bucket_of h (length (table t)) (key it) = i)"
  unfolding well_formed_def by (simp add: Ball_def)

lemma for_each_append:
  "for_each body (xs @ ys) s =
     (case for_each body xs s of (None, s') \<Rightarrow> for_each body ys s' | (Some e, s') \<Rightarrow> (Some e, s'))"
  by (induction xs arbitrary: s) (auto split: prod.splits option.splits)

lemma for_each_concat:
  "for_each (\<lambda>s xs. for_each body xs s) xss s = for_each body (concat xss) s"
  by (induction xss arbitrary: s) (auto simp: for_each_append split: prod.splits option.splits)

lemma bucket_of_less: "0 < n \<Longrightarrow> bucket_of h n k < n"
  by (simp add: bucket_of_def nat_less_iff)

lemma get_index_pos: "0 < length (table t) \<Longrightarrow> get_index h t k = Inr (bucket_of h (length (table t)) k)"
  by (simp add: get_index_def bucket_of_def)

lemma get_index_zero: "length (table t) = 0 \<Longrightarrow> get_index h t k = Inl ZeroDivisionError"
  by (simp add: get_index_def)

lemma find_sub_None: "find_sub its k j = None \<longleftrightarrow> k \<notin> key ` set its"
  by (induction its arbitrary: j) auto

lemma find_sub_Some:
  "find_sub its k j = Some m \<Longrightarrow> j \<le> m \<and> m - j < length its \<and> key (its ! (m - j)) = k"
proof (induction its arbitrary: j)
  case Nil
  then show ?case by simp
next
  case (Cons it its)
  show ?case
  proof (cases "key it = k")
    case True
    with Cons.prems show ?thesis by simp
  next
    case False
    with Cons.prems have "find_sub its k (Suc j) = Some m" by simp
    from Cons.IH[OF this] show ?thesis
      by (auto simp: Suc_diff_Suc less_eq_Suc_le)
  qed
qed

lemma find_sub_Some0:
  "find_sub its k 0 = Some m \<Longrightarrow> m < length its \<and> key (its ! m) = k"
  using find_sub_Some[of its k 0 m] by simp

lemma find_ht_zero: "length (table t) = 0 \<Longrightarrow> find_ht h t k = Inl ZeroDivisionError"
  by (simp add: find_ht_def get_index_zero)

lemma find_ht_pos:
  "0 < length (table t) \<Longrightarrow>
   find_ht h t k =
     (case find_sub (table t ! bucket_of h (length (table t)) k) k 0 of
        Some j \<Rightarrow> Inr (bucket_of h (length (table t)) k, j)
      | None \<Rightarrow> Inl KeyError)"
  by (simp add: find_ht_def get_index_pos)

lemma find_ht_Inr:
  assumes "find_ht h t k = Inr (i, j)"
  shows "0 < length (table t) \<and> i = bucket_of h (length (table t)) k \<and> i < length (table t)
         \<and> j < length (table t ! i) \<and> key (table t ! i ! j) = k"
proof -
  have pos: "0 < length (table t)"
    using assms find_ht_zero[of t h k] by (cases "length (table t) = 0") auto
  from assms pos obtain i: "i = bucket_of h (length (table t)) k" and "find_sub (table t ! i) k 0 = Some j"
    by (auto simp: find_ht_pos split: option.splits)
  with pos find_sub_Some0[of "table t ! i" k j] show ?thesis
    by (simp add: bucket_of_less)
qed

lemma concat_update:
  "i < length xs \<Longrightarrow> concat (xs[i := a]) = concat (take i xs) @ a @ concat (drop (Suc i) xs)"
  by (simp add: upd_conv_take_nth_drop)

lemma concat_nth:
  "i < length xs \<Longrightarrow> concat xs = concat (take i xs) @ xs ! i @ concat (drop (Suc i) xs)"
  using concat_update[of i xs "xs ! i"] by simp

lemma items_entries: "items t = map (\<lambda>it. (key it, val it)) (entries t)"
  by (simp add: items_def entries_def map_concat)

lemma map_fst_items: "map fst (items t) = map key (entries t)"
  by (simp add: items_entries comp_def)

lemma in_entries_iff: "it \<in> set (entries t) \<longleftrightarrow> (\<exists>i < length (table t). it \<in> set (table t ! i))"
  by (simp add: entries_def) (metis in_set_conv_nth)

lemma map_of_insert_mid:
  assumes "k \<notin> fst ` set A"
  shows "map_of (A @ (k, v) # B) = (map_of (A @ B))(k \<mapsto> v)"
proof (rule ext)
  fix x
  from assms have "map_of A k = None"
    by (simp add: map_of_eq_None_iff)
  then show "map_of (A @ (k, v) # B) x = ((map_of (A @ B))(k \<mapsto> v)) x"
    by (cases "map_of A x") (auto simp: map_add_def)
qed

lemma map_of_replace_mid:
  assumes "k \<notin> fst ` set A"
  shows "map_of (A @ (k, v) # B) = (map_of (A @ (k, w) # B))(k \<mapsto> v)"
proof -
  have "(map_of (A @ (k, w) # B))(k \<mapsto> v) = ((map_of (A @ B))(k \<mapsto> w))(k \<mapsto> v)"
    using map_of_insert_mid[OF assms, of w B] by simp
  also have "\<dots> = (map_of (A @ B))(k \<mapsto> v)"
    by (rule fun_upd_upd)
  also have "\<dots> = map_of (A @ (k, v) # B)"
    using map_of_insert_mid[OF assms, of v B] by simp
  finally show ?thesis by simp
qed

lemma map_of_remove_mid:
  assumes "k \<notin> fst ` set A" "k \<notin> fst ` set B"
  shows "map_of (A @ B) = (map_of (A @ (k, w) # B))(k := None)"
proof -
  from assms have "k \<notin> fst ` set (A @ B)"
    by (simp add: image_Un)
  then have none: "map_of (A @ B) k = None"
    using map_of_eq_None_iff[of "A @ B" k] by blast
  have "(map_of (A @ (k, w) # B))(k := None) = ((map_of (A @ B))(k \<mapsto> w))(k := None)"
    using map_of_insert_mid[OF assms(1), of w B] by simp
  also have "\<dots> = (map_of (A @ B))(k := None)"
    by (rule fun_upd_upd)
  also have "\<dots> = map_of (A @ B)"
    using none by (rule fun_upd_idem)
  finally show ?thesis by simp
qed

lemma entries_split:
  "i < length (table t) \<Longrightarrow> j < length (table t ! i) \<Longrightarrow>
   entries t = pre t i j @ table t ! i ! j # post t i j"
  using concat_nth[of i "table t"] id_take_nth_drop[of j "table t ! i"]
  by (simp add: entries_def pre_def post_def)

lemma entries_set_val:
  "i < length (table t) \<Longrightarrow> j < length (table t ! i) \<Longrightarrow>
   entries (set_val t i j v) = pre t i j @ (table t ! i ! j)\<lparr>val := v\<rparr> # post t i j"
  by (simp add: entries_def set_val_def pre_def post_def concat_update upd_conv_take_nth_drop)

lemma entries_remove_item:
  "i < length (table t) \<Longrightarrow> j < length (table t ! i) \<Longrightarrow>
   entries (remove_item t i j) = pre t i j @ post t i j"
  by (simp add: entries_def remove_item_def pre_def post_def concat_update del_at_def)

lemma entries_append_item:
  "i < length (table t) \<Longrightarrow>
   entries (append_item t i k v) =
     (concat (take i (table t)) @ table t ! i) @ \<lparr>key = k, val = v\<rparr> # concat (drop (Suc i) (table t))"
  by (simp add: entries_def append_item_def concat_update)

lemma entries_split_bucket:
  "i < length (table t) \<Longrightarrow>
   entries t = (concat (take i (table t)) @ table t ! i) @ concat (drop (Suc i) (table t))"
  using concat_nth[of i "table t"] by (simp add: entries_def)

lemma contents_entries: "contents t = map_of (map (\<lambda>it. (key it, val it)) (entries t))"
  by (simp add: contents_def items_entries)

lemma well_formed_set_val:
  assumes "well_formed h t" "i < length (table t)" "j < length (table t ! i)"
  shows "well_formed h (set_val t i j v)"
    and "contents (set_val t i j v) = (contents t)(key (table t ! i ! j) \<mapsto> v)"
    and "length (table (set_val t i j v)) = length (table t)"
    and "count_items (set_val t i j v) = count_items t"
proof -
  let ?t' = "set_val t i j v"
  note e = entries_split[OF assms(2,3)] and e' = entries_set_val[OF assms(2,3), of v]
  show len: "length (table ?t') = length (table t)" by (simp add: set_val_def)
  show cnt: "count_items ?t' = count_items t" by (simp add: set_val_def)
  have keys: "map key (entries ?t') = map key (entries t)" by (simp add: e e')
  have place: "bucket_of h (length (table ?t')) (key it) = i'"
    if "i' < length (table ?t')" "it \<in> set (table ?t' ! i')" for i' it
  proof (cases "i' = i")
    case False
    with that assms(1) show ?thesis by (simp add: set_val_def well_formed_iff)
  next
    case True
    with that assms(2) have "it \<in> set ((table t ! i)[j := (table t ! i ! j)\<lparr>val := v\<rparr>])"
      by (simp add: set_val_def)
    then have "it = (table t ! i ! j)\<lparr>val := v\<rparr> \<or> it \<in> set (table t ! i)"
      using set_update_subset_insert[of "table t ! i" j] by auto
    then have "\<exists>it' \<in> set (table t ! i). key it = key it'"
      using assms(3) by (auto intro: bexI[of _ "table t ! i ! j"])
    with assms(1,2) True show ?thesis by (auto simp: well_formed_iff len)
  qed
  from assms(1) keys cnt len place show "well_formed h ?t'"
    unfolding well_formed_iff by (metis length_map)
  from assms(1) have "key (table t ! i ! j) \<notin> key ` set (pre t i j)"
    by (auto simp: well_formed_iff e)
  then have "key (table t ! i ! j) \<notin> fst ` set (map (\<lambda>it. (key it, val it)) (pre t i j))"
    by (simp add: image_image)
  from map_of_replace_mid[OF this] show "contents ?t' = (contents t)(key (table t ! i ! j) \<mapsto> v)"
    by (simp add: contents_entries e e')
qed

lemma well_formed_append_item:
  assumes "well_formed h t" "k \<notin> key ` set (entries t)" "i = bucket_of h (length (table t)) k"
  shows "well_formed h (append_item t i k v)"
    and "contents (append_item t i k v) = (contents t)(k \<mapsto> v)"
    and "length (table (append_item t i k v)) = length (table t)"
    and "count_items (append_item t i k v) = count_items t + 1"
proof -
  let ?t' = "append_item t i k v"
  from assms(1,3) have i: "i < length (table t)"
    by (simp add: well_formed_iff bucket_of_less)
  note e = entries_split_bucket[OF i] and e' = entries_append_item[OF i, of k v]
  show len: "length (table ?t') = length (table t)" by (simp add: append_item_def)
  show cnt: "count_items ?t' = count_items t + 1" by (simp add: append_item_def)
  have place: "bucket_of h (length (table ?t')) (key it) = i'"
    if "i' < length (table ?t')" "it \<in> set (table ?t' ! i')" for i' it
  proof (cases "i' = i")
    case False
    with that assms(1) show ?thesis by (simp add: append_item_def well_formed_iff)
  next
    case True
    with that i have "it = \<lparr>key = k, val = v\<rparr> \<or> it \<in> set (table t ! i)"
      by (auto simp: append_item_def)
    with assms(1,3) i have "bucket_of h (length (table t)) (key it) = i"
      by (auto simp: well_formed_iff)
    with True show ?thesis by (simp only: len)
  qed
  have "distinct (map key (entries ?t'))"
    using assms(1,2) unfolding e' by (auto simp: well_formed_iff e)
  moreover have "count_items ?t' = int (length (entries ?t'))"
    using assms(1) unfolding e' cnt by (simp add: well_formed_iff e)
  ultimately show "well_formed h ?t'"
    using assms(1) place len unfolding well_formed_iff by simp
  from assms(2) have "k \<notin> fst ` set (map (\<lambda>it. (key it, val it)) (concat (take i (table t)) @ table t ! i))"
    by (auto simp: e image_image)
  from map_of_insert_mid[OF this] show "contents ?t' = (contents t)(k \<mapsto> v)"
    by (simp add: contents_entries e e')
qed

lemma well_formed_remove_item:
  assumes "well_formed h t" "i < length (table t)" "j < length (table t ! i)"
  shows "well_formed h (remove_item t i j)"
    and "contents (remove_item t i j) = (contents t)(key (table t ! i ! j) := None)"
    and "length (table (remove_item t i j)) = length (table t)"
    and "count_items (remove_item t i j) = count_items t - 1"
proof -
  let ?t' = "remove_item t i j"
  note e = entries_split[OF assms(2,3)] and e' = entries_remove_item[OF assms(2,3)]
  show len: "length (table ?t') = length (table t)" by (simp add: remove_item_def)
  show cnt: "count_items ?t' = count_items t - 1" by (simp add: remove_item_def)
  have d: "distinct (map key (entries ?t'))"
    using assms(1) unfolding e' by (auto simp: well_formed_iff e)
  have c: "count_items ?t' = int (length (entries ?t'))"
    using assms(1) unfolding e' cnt by (simp add: well_formed_iff e)
  have place: "bucket_of h (length (table ?t')) (key it) = i'"
    if "i' < length (table ?t')" "it \<in> set (table ?t' ! i')" for i' it
  proof (cases "i' = i")
    case False
    with that assms(1) show ?thesis by (simp add: remove_item_def well_formed_iff)
  next
    case True
    with that assms(2) have "it \<in> set (del_at j (table t ! i))"
      by (simp add: remove_item_def)
    then have "it \<in> set (table t ! i)"
      by (auto simp: del_at_def dest: in_set_takeD in_set_dropD)
    with assms(1,2) True show ?thesis by (auto simp: well_formed_iff len)
  qed
  from assms(1) d c place len show "well_formed h ?t'"
    unfolding well_formed_iff by simp
  from assms(1) have "key (table t ! i ! j) \<notin> key ` set (pre t i j)"
    and "key (table t ! i ! j) \<notin> key ` set (post t i j)"
    by (auto simp: well_formed_iff e)
  then have "key (table t ! i ! j) \<notin> fst ` set (map (\<lambda>it. (key it, val it)) (pre t i j))"
    and "key (table t ! i ! j) \<notin> fst ` set (map (\<lambda>it. (key it, val it)) (post t i j))"
    by (simp_all add: image_image)
  from map_of_remove_mid[OF this] show "contents ?t' = (contents t)(key (table t ! i ! j) := None)"
    by (simp add: contents_entries e e')
qed

text \<open>Chain search against the abstraction.\<close>

lemma well_formed_key_in_bucket:
  assumes "well_formed h t"
  shows "k \<in> key ` set (entries t) \<longleftrightarrow> k \<in> key ` set (table t ! bucket_of h (length (table t)) k)"
proof
  assume "k \<in> key ` set (entries t)"
  then obtain it where it: "it \<in> set (entries t)" "key it = k" by auto
  then obtain i where i: "i < length (table t)" "it \<in> set (table t ! i)"
    by (auto simp: in_entries_iff)
  with assms it have "bucket_of h (length (table t)) k = i"
    by (auto simp: well_formed_iff)
  with i it show "k \<in> key ` set (table t ! bucket_of h (length (table t)) k)" by auto
next
  assume "k \<in> key ` set (table t ! bucket_of h (length (table t)) k)"
  moreover from assms have "bucket_of h (length (table t)) k < length (table t)"
    by (simp add: well_formed_iff bucket_of_less)
  ultimately obtain it i where "i < length (table t)" "it \<in> set (table t ! i)" "key it = k"
    by auto
  then have "it \<in> set (entries t)" "key it = k"
    by (auto simp: in_entries_iff)
  then show "k \<in> key ` set (entries t)" by auto
qed

lemma dom_contents: "dom (contents t) = key ` set (entries t)"
  by (simp add: contents_entries dom_map_of_conv_image_fst image_image)

lemma well_formed_find_ht_KeyError:
  assumes "well_formed h t"
  shows "find_ht h t k = Inl KeyError \<longleftrightarrow> k \<notin> dom (contents t)"
proof -
  let ?b = "table t ! bucket_of h (length (table t)) k"
  from assms have "find_ht h t k = Inl KeyError \<longleftrightarrow> find_sub ?b k 0 = None"
    by (auto simp: find_ht_pos well_formed_iff split: option.splits)
  also have "\<dots> \<longleftrightarrow> k \<notin> key ` set ?b"
    by (rule find_sub_None)
  also have "\<dots> \<longleftrightarrow> k \<notin> dom (contents t)"
    using well_formed_key_in_bucket[OF assms, of k] by (simp add: dom_contents)
  finally show ?thesis .
qed

lemma well_formed_find_ht_cases:
  assumes "well_formed h t"
  obtains (absent) "find_ht h t k = Inl KeyError" "k \<notin> dom (contents t)"
  | (present) i j where "find_ht h t k = Inr (i, j)" "i < length (table t)" "j < length (table t ! i)"
      "key (table t ! i ! j) = k" "contents t k = Some (val (table t ! i ! j))"
proof (cases "find_ht h t k")
  case (Inl e)
  with assms have "e = KeyError"
    by (auto simp: find_ht_pos well_formed_iff split: option.splits)
  with Inl well_formed_find_ht_KeyError[OF assms, of k] absent show ?thesis by simp
next
  case (Inr p)
  obtain i j where p: "p = (i, j)" by (cases p)
  note f = find_ht_Inr[OF Inr[unfolded p]]
  then have ij: "i < length (table t)" "j < length (table t ! i)" "key (table t ! i ! j) = k"
    by blast+
  from assms have "distinct (map fst (items t))"
    by (simp add: map_fst_items well_formed_iff)
  moreover have "(k, val (table t ! i ! j)) \<in> set (items t)"
  proof -
    from ij have "table t ! i ! j \<in> set (entries t)"
      by (auto simp: in_entries_iff)
    with ij(3) show ?thesis
      by (force simp: items_entries)
  qed
  ultimately have "contents t k = Some (val (table t ! i ! j))"
    by (simp add: contents_def)
  with Inr p ij present show ?thesis by simp
qed

lemma well_formed_get:
  assumes "well_formed h t"
  shows "get h t k = (case contents t k of None \<Rightarrow> Inl KeyError | Some v \<Rightarrow> Inr v)"
  by (rule well_formed_find_ht_cases[OF assms, of k]) (auto simp: get_def domIff)

lemma well_formed_count: "well_formed h t \<Longrightarrow> count_items t = int (card (dom (contents t)))"
proof -
  assume w: "well_formed h t"
  then have "card (key ` set (entries t)) = length (entries t)"
    using distinct_card[of "map key (entries t)"] by (simp add: well_formed_iff)
  with w show ?thesis by (simp add: dom_contents well_formed_iff)
qed

lemma well_formed_items_distinct: "well_formed h t \<Longrightarrow> distinct (map fst (items t))"
  by (simp add: map_fst_items well_formed_iff)

lemma well_formed_contents_eq_mset:
  assumes "well_formed h t" "well_formed h' t'" "contents t = contents t'"
  shows "mset (items t) = mset (items t')"
proof -
  note d = well_formed_items_distinct[OF assms(1)] and d' = well_formed_items_distinct[OF assms(2)]
  from assms(3) have "set (items t) = set (items t')"
    using map_of_inject_set[OF d d'] by (simp add: contents_def)
  moreover from d d' have "distinct (items t)" "distinct (items t')"
    by (simp_all add: distinct_map)
  ultimately show ?thesis
    by (simp add: set_eq_iff_mset_eq_distinct)
qed

subsection \<open>update\<close>

lemma update_present:
  "find_ht h t k = Inr (i, j) \<Longrightarrow> update h t k v rsz = (None, set_val t i j v)"
  by (simp add: update.simps set_val_def)

lemma update_absent:
  assumes "find_ht h t k = Inl KeyError"
  shows "update h t k v rsz =
           (if rsz then resize h (append_item t (bucket_of h (length (table t)) k) k v)
            else (None, append_item t (bucket_of h (length (table t)) k) k v))"
proof -
  from assms have "0 < length (table t)"
    using find_ht_zero[of t h k] by (cases "length (table t) = 0") auto
  with assms show ?thesis
    by (simp add: update.simps get_index_pos append_item_def Let_def)
qed

lemma update_zero:
  "length (table t) = 0 \<Longrightarrow> update h t k v rsz = (Some ZeroDivisionError, t)"
  by (simp add: update.simps find_ht_zero)

lemma update_False_length:
  "length (table (snd (update h t k v False))) = length (table t)"
proof (cases "find_ht h t k")
  case (Inl e)
  then show ?thesis
  proof (cases e)
    case KeyError
    with Inl show ?thesis by (simp add: update_absent append_item_def)
  next
    case ZeroDivisionError
    with Inl show ?thesis by (simp add: update.simps)
  qed
next
  case (Inr p)
  then show ?thesis by (cases p) (simp add: update_present set_val_def)
qed

lemma well_formed_update_False:
  assumes "well_formed h t"
  shows "fst (update h t k v False) = None"
    and "well_formed h (snd (update h t k v False))"
    and "contents (snd (update h t k v False)) = (contents t)(k \<mapsto> v)"
proof -
  have "fst (update h t k v False) = None \<and> well_formed h (snd (update h t k v False))
        \<and> contents (snd (update h t k v False)) = (contents t)(k \<mapsto> v)"
  proof (rule well_formed_find_ht_cases[OF assms, of k])
    assume a: "find_ht h t k = Inl KeyError" "k \<notin> dom (contents t)"
    then have "k \<notin> key ` set (entries t)" by (simp add: dom_contents)
    from well_formed_append_item(1,2)[OF assms this refl, of v] a(1) show ?thesis
      by (simp add: update_absent)
  next
    fix i j
    assume "find_ht h t k = Inr (i, j)" "i < length (table t)" "j < length (table t ! i)"
      "key (table t ! i ! j) = k"
    with well_formed_set_val(1,2)[OF assms, of i j v] show ?thesis
      by (simp add: update_present)
  qed
  then show "fst (update h t k v False) = None"
    and "well_formed h (snd (update h t k v False))"
    and "contents (snd (update h t k v False)) = (contents t)(k \<mapsto> v)"
    by simp_all
qed

subsection \<open>Rehash and resize\<close>

lemma reinsert_Nil: "reinsert h [] s = (None, s)"
  by (simp add: reinsert_def)

lemma reinsert_Cons:
  "reinsert h (it # its) s =
     (case update h s (key it) (val it) False of
        (None, s') \<Rightarrow> reinsert h its s'
      | (Some e, s') \<Rightarrow> (Some e, s'))"
  by (simp add: reinsert_def split: prod.splits option.splits)

lemma reinsert_length: "length (table (snd (reinsert h its s))) = length (table s)"
proof (induction its arbitrary: s)
  case Nil
  show ?case by (simp add: reinsert_Nil)
next
  case (Cons it its)
  obtain e s' where u: "update h s (key it) (val it) False = (e, s')"
    by (cases "update h s (key it) (val it) False")
  with update_False_length[of h s "key it" "val it"] have "length (table s') = length (table s)"
    by simp
  with u Cons.IH[of s'] show ?case
    by (cases e) (simp_all add: reinsert_Cons)
qed

lemma well_formed_reinsert:
  assumes "well_formed h s"
  shows "fst (reinsert h its s) = None \<and> well_formed h (snd (reinsert h its s)) \<and>
         contents (snd (reinsert h its s)) = contents s ++ map_of (rev (map (\<lambda>it. (key it, val it)) its))"
  using assms
proof (induction its arbitrary: s)
  case Nil
  then show ?case by (simp add: reinsert_Nil)
next
  case (Cons it its)
  obtain e s' where u: "update h s (key it) (val it) False = (e, s')"
    by (cases "update h s (key it) (val it) False")
  with well_formed_update_False[OF Cons.prems, of "key it" "val it"]
  have s': "e = None" "well_formed h s'" "contents s' = (contents s)(key it \<mapsto> val it)"
    by simp_all
  let ?f = "\<lambda>it. (key it, val it)"
  from Cons.IH[OF s'(2)]
  have ih: "fst (reinsert h its s') = None" "well_formed h (snd (reinsert h its s'))"
    "contents (snd (reinsert h its s')) = contents s' ++ map_of (rev (map ?f its))"
    by simp_all
  have re: "reinsert h (it # its) s = reinsert h its s'"
    using u s'(1) by (simp add: reinsert_Cons)
  have "contents s' ++ map_of (rev (map ?f its)) = contents s ++ map_of (rev (map ?f (it # its)))"
    unfolding s'(3) by (rule ext) (simp add: map_add_def split: option.splits)
  with ih show ?case
    unfolding re by simp
qed

lemma resize_unfold:
  "resize h t =
     (if count_items t * 2 > int (length (table t)) then
        reinsert h (entries t) (t\<lparr>table := replicate (2 * length (table t)) [], count_items := 0\<rparr>)
      else if count_items t * 4 < int (length (table t)) then
        reinsert h (entries t) (t\<lparr>table := replicate (length (table t) div 2) [], count_items := 0\<rparr>)
      else (None, t))"
proof -
  have "nat (int n * 2) = 2 * n" "nat (int n div 2) = n div 2" for n :: nat
    by (simp_all add: nat_mult_distrib nat_div_distrib)
  then show ?thesis
    by (simp add: resize.simps[of h t] RESIZE_MUL_def Let_def for_each_concat reinsert_def entries_def)
qed

text \<open>The capacity after a resize check, whatever the table.\<close>

lemma resize_capacity:
  "int (length (table (snd (resize h t)))) = new_capacity (count_items t) (int (length (table t)))"
  by (simp add: resize_unfold new_capacity_def reinsert_length zdiv_int)

lemma well_formed_blank:
  assumes "0 < n"
  shows "well_formed h (t\<lparr>table := replicate n [], count_items := 0\<rparr>)"
    and "contents (t\<lparr>table := replicate n [], count_items := 0\<rparr>) = Map.empty"
  using assms by (simp_all add: well_formed_iff entries_def contents_def items_def)

lemma well_formed_resize:
  assumes "well_formed h t" "2 \<le> length (table t) \<or> 0 < count_items t"
  shows "fst (resize h t) = None"
    and "well_formed h (snd (resize h t))"
    and "contents (snd (resize h t)) = contents t"
    and "count_items (snd (resize h t)) = count_items t"
proof -
  have rehash: "fst (reinsert h (entries t) s) = None \<and> well_formed h (snd (reinsert h (entries t) s))
                \<and> contents (snd (reinsert h (entries t) s)) = contents t"
    if "s = t\<lparr>table := replicate n [], count_items := 0\<rparr>" "0 < n" for n s
  proof -
    have b: "well_formed h s" "contents s = Map.empty"
      unfolding that(1) by (rule well_formed_blank[OF that(2)])+
    note r = well_formed_reinsert[OF b(1), of "entries t"]
    have d: "distinct (map fst (items t))" by (rule well_formed_items_distinct[OF assms(1)])
    then have "distinct (map fst (rev (items t)))"
      by (simp add: rev_map[symmetric])
    from map_of_inject_set[OF this d] have "map_of (rev (items t)) = map_of (items t)"
      by simp
    with r b(2) show ?thesis
      by (simp add: items_entries rev_map contents_def)
  qed
  have *: "fst (resize h t) = None \<and> well_formed h (snd (resize h t)) \<and> contents (snd (resize h t)) = contents t"
  proof (cases "count_items t * 2 > int (length (table t))")
    case True
    from assms(1) have "0 < 2 * length (table t)" by (simp add: well_formed_iff)
    from rehash[OF refl this] True show ?thesis by (simp add: resize_unfold)
  next
    case False
    show ?thesis
    proof (cases "count_items t * 4 < int (length (table t))")
      case True
      with False assms(2) have "0 < length (table t) div 2" by auto
      from rehash[OF refl this] True False show ?thesis by (simp add: resize_unfold)
    next
      case False
      with \<open>\<not> count_items t * 2 > int (length (table t))\<close> assms(1) show ?thesis
        by (simp add: resize_unfold)
    qed
  qed
  then show "fst (resize h t) = None" "well_formed h (snd (resize h t))" "contents (snd (resize h t)) = contents t"
    by simp_all
  with well_formed_count[of h "snd (resize h t)"] well_formed_count[OF assms(1)]
  show "count_items (snd (resize h t)) = count_items t" by simp
qed

subsection \<open>The invariant of reachable tables\<close>

lemma new_capacity_load:
  fixes N C :: int
  assumes "0 < C" "2 * (N - 1) \<le> C"
  shows "2 * N \<le> new_capacity N C"
  using assms unfolding new_capacity_def by (simp split: if_splits) arith

lemma invar_resize:
  assumes "well_formed h t" "2 \<le> length (table t) \<or> 0 < count_items t"
    and "2 * (count_items t - 1) \<le> int (length (table t))"
  shows "invar h (snd (resize h t))"
proof -
  note r = well_formed_resize[OF assms(1,2)]
  let ?C = "int (length (table t))" and ?N = "count_items t"
  from assms(1) have "0 < ?C" by (simp add: well_formed_iff)
  from new_capacity_load[OF this assms(3)] r resize_capacity[of h t] show ?thesis
    by (simp add: invar_def)
qed

lemma well_formed_count_nonneg: "well_formed h t \<Longrightarrow> 0 \<le> count_items t"
  by (simp add: well_formed_iff)

lemma invar_setitem:
  assumes "invar h t"
  shows "fst (setitem h t k v) = None"
    and "invar h (snd (setitem h t k v))"
    and "contents (snd (setitem h t k v)) = (contents t)(k \<mapsto> v)"
    and "count_items (snd (setitem h t k v)) = (if k \<in> dom (contents t) then count_items t else count_items t + 1)"
proof -
  from assms have w: "well_formed h t" and l: "2 * count_items t \<le> int (length (table t))"
    by (simp_all add: invar_def)
  let ?r = "setitem h t k v"
  have "fst ?r = None \<and> invar h (snd ?r) \<and> contents (snd ?r) = (contents t)(k \<mapsto> v) \<and>
        count_items (snd ?r) = (if k \<in> dom (contents t) then count_items t else count_items t + 1)"
  proof (rule well_formed_find_ht_cases[OF w, of k])
    assume a: "find_ht h t k = Inl KeyError" "k \<notin> dom (contents t)"
    let ?t2 = "append_item t (bucket_of h (length (table t)) k) k v"
    from a(2) have "k \<notin> key ` set (entries t)" by (simp add: dom_contents)
    note ap = well_formed_append_item[OF w this refl, of v]
    from well_formed_count_nonneg[OF w] ap(4) have pos: "2 \<le> length (table ?t2) \<or> 0 < count_items ?t2"
      by simp
    from l ap(3,4) have load: "2 * (count_items ?t2 - 1) \<le> int (length (table ?t2))"
      by simp
    have r: "?r = resize h ?t2"
      using a(1) by (simp add: setitem_def update_absent)
    from well_formed_resize[OF ap(1) pos] invar_resize[OF ap(1) pos load] ap(2,4) a(2)
    show ?thesis unfolding r by simp
  next
    fix i j
    assume p: "find_ht h t k = Inr (i, j)" "i < length (table t)" "j < length (table t ! i)"
      "key (table t ! i ! j) = k" "contents t k = Some (val (table t ! i ! j))"
    have r: "?r = (None, set_val t i j v)"
      using p(1) by (simp add: setitem_def update_present)
    from well_formed_set_val[OF w p(2,3), of v] l p(4,5) show ?thesis
      unfolding r by (auto simp: invar_def)
  qed
  then show "fst ?r = None" "invar h (snd ?r)" "contents (snd ?r) = (contents t)(k \<mapsto> v)"
    "count_items (snd ?r) = (if k \<in> dom (contents t) then count_items t else count_items t + 1)"
    by simp_all
qed

lemma invar_delitem_absent:
  assumes "invar h t" "k \<notin> dom (contents t)"
  shows "delitem h t k = (Some KeyError, t)"
proof -
  from assms(1) have w: "well_formed h t" by (simp add: invar_def)
  from assms(2) well_formed_find_ht_KeyError[OF w, of k] show ?thesis
    by (simp add: delitem_def delete_def)
qed

lemma invar_delitem_present:
  assumes "invar h t" "k \<in> dom (contents t)"
  shows "fst (delitem h t k) = None"
    and "invar h (snd (delitem h t k))"
    and "contents (snd (delitem h t k)) = (contents t)(k := None)"
    and "count_items (snd (delitem h t k)) = count_items t - 1"
proof -
  from assms have w: "well_formed h t" and l: "2 * count_items t \<le> int (length (table t))"
    by (simp_all add: invar_def)
  let ?r = "delitem h t k"
  have "fst ?r = None \<and> invar h (snd ?r) \<and> contents (snd ?r) = (contents t)(k := None) \<and>
        count_items (snd ?r) = count_items t - 1"
  proof (rule well_formed_find_ht_cases[OF w, of k])
    assume "find_ht h t k = Inl KeyError" "k \<notin> dom (contents t)"
    with assms(2) show ?thesis by simp
  next
    fix i j
    assume p: "find_ht h t k = Inr (i, j)" "i < length (table t)" "j < length (table t ! i)"
      "key (table t ! i ! j) = k" "contents t k = Some (val (table t ! i ! j))"
    let ?t1 = "remove_item t i j"
    note rm = well_formed_remove_item[OF w p(2,3)]
    have "1 \<le> length (entries t)"
      unfolding entries_split[OF p(2,3)] by simp
    moreover from w have "count_items t = int (length (entries t))"
      by (simp add: well_formed_iff)
    ultimately have "1 \<le> count_items t" by simp
    with l rm(3,4) have pos: "2 \<le> length (table ?t1) \<or> 0 < count_items ?t1"
      and load: "2 * (count_items ?t1 - 1) \<le> int (length (table ?t1))"
      by simp_all
    have r: "?r = resize h ?t1"
      using p(1) by (simp add: delitem_def delete_def remove_item_def Let_def)
    from well_formed_resize[OF rm(1) pos] invar_resize[OF rm(1) pos load] rm(2,4) p(4)
    show ?thesis unfolding r by simp
  qed
  then show "fst ?r = None" "invar h (snd ?r)" "contents (snd ?r) = (contents t)(k := None)"
    "count_items (snd ?r) = count_items t - 1"
    by simp_all
qed

lemma invar_delitem: "invar h t \<Longrightarrow> invar h (snd (delitem h t k))"
  using invar_delitem_absent[of h t k] invar_delitem_present(2)[of h t k]
  by (cases "k \<in> dom (contents t)") simp_all

lemma init_None:
  "hash_table_init h None = (None, \<lparr>table = [[], [], [], []], count_items = 0\<rparr>)"
  by (simp add: hash_table_init_def INITIAL_SIZE_def numeral_eq_Suc)

lemma invar_fresh:
  "invar h (snd (hash_table_init h None))"
  "contents (snd (hash_table_init h None)) = Map.empty"
  by (simp_all add: hash_table_init_def INITIAL_SIZE_def invar_def well_formed_iff
      entries_def contents_def items_def)

lemma set_all_Cons:
  "set_all h ((k, v) # kvs) t =
     (case setitem h t k v of (None, t') \<Rightarrow> set_all h kvs t' | (Some e, t') \<Rightarrow> (Some e, t'))"
  by (simp add: set_all_def split: prod.splits option.splits)

lemma invar_set_all:
  assumes "invar h t"
  shows "fst (set_all h kvs t) = None \<and> invar h (snd (set_all h kvs t)) \<and>
         contents (snd (set_all h kvs t)) = contents t ++ map_of (rev kvs)"
  using assms
proof (induction kvs arbitrary: t)
  case Nil
  then show ?case by (simp add: set_all_def)
next
  case (Cons kv kvs)
  obtain k v where kv: "kv = (k, v)" by (cases kv)
  obtain e t' where u: "setitem h t k v = (e, t')" by (cases "setitem h t k v")
  with invar_setitem(1-3)[OF Cons.prems, of k v]
  have t': "e = None" "invar h t'" "contents t' = (contents t)(k \<mapsto> v)" by simp_all
  have re: "set_all h (kv # kvs) t = set_all h kvs t'"
    using u t'(1) by (simp add: kv set_all_Cons)
  have "contents t' ++ map_of (rev kvs) = contents t ++ map_of (rev (kv # kvs))"
    unfolding t'(3) kv by (rule ext) (simp add: map_add_def split: option.splits)
  with Cons.IH[OF t'(2)] show ?case
    unfolding re by simp
qed

lemma init_set_all:
  "hash_table_init h (Some kvs) = set_all h kvs (snd (hash_table_init h None))"
  by (cases kvs) (simp_all add: hash_table_init_def set_all_def setitem_def)

lemma invar_init: "invar h (snd (hash_table_init h initial))"
proof (cases initial)
  case None
  then show ?thesis by (simp add: invar_fresh(1))
next
  case (Some kvs)
  with invar_set_all[OF invar_fresh(1), of h kvs] show ?thesis
    by (simp add: init_set_all)
qed

lemma reachable_invar: "reachable h t \<Longrightarrow> invar h t"
proof (induction rule: reachable.induct)
  case (init initial)
  show ?case by (rule invar_init)
next
  case (set t k v)
  from set.IH show ?case by (rule invar_setitem(2))
next
  case (get t k)
  then show ?case by (simp add: getitem_def)
next
  case (del t k)
  from del.IH show ?case by (rule invar_delitem)
qed

lemma del_all_Cons:
  "del_all h (k # ks) t =
     (case delitem h t k of (None, t') \<Rightarrow> del_all h ks t' | (Some e, t') \<Rightarrow> (Some e, t'))"
  by (simp add: del_all_def split: prod.splits option.splits)

lemma invar_del_all:
  assumes "invar h t" "distinct ks" "set ks \<subseteq> dom (contents t)"
  shows "fst (del_all h ks t) = None \<and> invar h (snd (del_all h ks t)) \<and>
         count_items (snd (del_all h ks t)) = count_items t - int (length ks)"
  using assms
proof (induction ks arbitrary: t)
  case Nil
  then show ?case by (simp add: del_all_def)
next
  case (Cons k ks)
  from Cons.prems have k: "k \<in> dom (contents t)" by simp
  obtain e t' where u: "delitem h t k = (e, t')" by (cases "delitem h t k")
  with invar_delitem_present[OF Cons.prems(1) k]
  have t': "e = None" "invar h t'" "contents t' = (contents t)(k := None)" "count_items t' = count_items t - 1"
    by simp_all
  have re: "del_all h (k # ks) t = del_all h ks t'"
    using u t'(1) by (simp add: del_all_Cons)
  from Cons.prems have "distinct ks" "set ks \<subseteq> dom (contents t')"
    unfolding t'(3) by auto
  from Cons.IH[OF t'(2) this] t'(4) show ?case
    unfolding re by simp
qed

text \<open>No \<^verbatim>\<open>KeyError\<close> leaves \<^verbatim>\<open>_update\<close> or \<^verbatim>\<open>_resize\<close>.\<close>

lemma update_False_not_KeyError: "fst (update h t k v False) \<noteq> Some KeyError"
proof (cases "find_ht h t k")
  case (Inl e)
  then show ?thesis
  proof (cases e)
    case KeyError
    with Inl show ?thesis by (simp add: update_absent)
  next
    case ZeroDivisionError
    with Inl show ?thesis by (simp add: update.simps)
  qed
next
  case (Inr p)
  then show ?thesis by (cases p) (simp add: update_present)
qed

lemma reinsert_not_KeyError: "fst (reinsert h its s) \<noteq> Some KeyError"
proof (induction its arbitrary: s)
  case Nil
  show ?case by (simp add: reinsert_Nil)
next
  case (Cons it its)
  obtain e s' where u: "update h s (key it) (val it) False = (e, s')"
    by (cases "update h s (key it) (val it) False")
  with update_False_not_KeyError[of h s "key it" "val it"] have "e \<noteq> Some KeyError" by simp
  with u Cons.IH[of s'] show ?case
    by (cases e) (simp_all add: reinsert_Cons)
qed

lemma resize_not_KeyError: "fst (resize h t) \<noteq> Some KeyError"
  by (simp add: resize_unfold reinsert_not_KeyError)

lemma delete_KeyError_iff:
  "fst (delete h t k) = Some KeyError \<longleftrightarrow> find_ht h t k = Inl KeyError"
  by (cases "find_ht h t k") (auto simp: delete_def Let_def resize_not_KeyError)

lemma well_formed_resize_any:
  assumes "well_formed h t"
  shows "fst (resize h t) = None"
    and "count_items (snd (resize h t)) = count_items t"
    and "mset (items (snd (resize h t))) = mset (items t)"
proof -
  have "fst (resize h t) = None \<and> count_items (snd (resize h t)) = count_items t \<and>
        mset (items (snd (resize h t))) = mset (items t)"
  proof (cases "2 \<le> length (table t) \<or> 0 < count_items t")
    case True
    note r = well_formed_resize[OF assms True]
    from well_formed_contents_eq_mset[OF r(2) assms r(3)] r(1,4) show ?thesis by simp
  next
    case False
    from assms have "0 < length (table t)" and ce: "count_items t = int (length (entries t))"
      unfolding well_formed_iff by blast+
    with False have "length (table t) = 1" "count_items t = 0"
      by arith+
    with ce have c: "count_items t = 0" "length (table t) = 1" "entries t = []"
      by simp_all
    then have "items t = []" by (simp add: items_entries)
    with c show ?thesis
      by (simp add: resize_unfold reinsert_Nil items_def)
  qed
  then show "fst (resize h t) = None" "count_items (snd (resize h t)) = count_items t"
    "mset (items (snd (resize h t))) = mset (items t)"
    by simp_all
qed

lemma well_formed_items_iff:
  "well_formed h t \<Longrightarrow> (k, v) \<in> set (items t) \<longleftrightarrow> contents t k = Some v"
  using well_formed_items_distinct[of h t] by (simp add: contents_def)

lemma well_formed_length_items: "well_formed h t \<Longrightarrow> count_items t = int (length (items t))"
  by (simp add: well_formed_iff items_entries)

lemma well_formed_remove_mset:
  assumes "well_formed h t" "well_formed h t'" "contents t' = (contents t)(k := None)" "(k, v) \<in> set (items t)"
  shows "mset (items t') = mset (items t) - {#(k, v)#}"
proof -
  from well_formed_items_distinct[OF assms(1)] well_formed_items_distinct[OF assms(2)]
  have d: "distinct (items t)" "distinct (items t')"
    by (simp_all add: distinct_map)
  from assms(4) have kv: "contents t k = Some v"
    by (simp add: well_formed_items_iff[OF assms(1)])
  have "set (items t') = set (items t) - {(k, v)}"
    using kv
    by (auto simp: well_formed_items_iff[OF assms(1)] well_formed_items_iff[OF assms(2)] assms(3)
        split: if_splits)
  then have "mset_set (set (items t')) = mset_set (set (items t) - {(k, v)})"
    by simp
  also have "\<dots> = mset_set (set (items t)) - {#(k, v)#}"
    using assms(4) by (simp add: mset_set_Diff)
  finally show ?thesis
    using d by (simp add: mset_set_set)
qed

lemma reachable_get:
  assumes "reachable h t"
  shows "get h t k = (case contents t k of None \<Rightarrow> Inl KeyError | Some v \<Rightarrow> Inr v)"
  using reachable_invar[OF assms] by (simp add: invar_def well_formed_get)

lemma dom_contents_items: "dom (contents t) = fst ` set (items t)"
  by (simp add: contents_def dom_map_of_conv_image_fst)

lemma set_all_fresh_distinct:
  fixes h :: "'k hash" and kvs :: "('k \<times> 'v) list"
  assumes d: "distinct (map fst kvs)"
  defines "r \<equiv> set_all h kvs (snd (hash_table_init h None))"
  shows "fst r = None" and "invar h (snd r)" and "contents (snd r) = map_of kvs"
    and "mset (items (snd r)) = mset kvs" and "len (snd r) = int (length kvs)"
proof -
  from invar_set_all[OF invar_fresh(1), of h kvs]
  have r: "fst r = None" "invar h (snd r)" "contents (snd r) = map_of (rev kvs)"
    by (simp_all add: invar_fresh(2) r_def)
  from r(2) have w: "well_formed h (snd r)" by (simp add: invar_def)
  from d have "distinct (map fst (rev kvs))" by (simp add: rev_map[symmetric])
  from map_of_inject_set[OF this d] show c: "contents (snd r) = map_of kvs"
    by (simp add: r(3))
  from c have "set (items (snd r)) = set kvs"
    using map_of_inject_set[OF well_formed_items_distinct[OF w] d] by (simp add: contents_def)
  moreover from well_formed_items_distinct[OF w] d have "distinct (items (snd r))" "distinct kvs"
    by (simp_all add: distinct_map)
  ultimately show m: "mset (items (snd r)) = mset kvs"
    by (simp add: set_eq_iff_mset_eq_distinct)
  then have "size (mset (items (snd r))) = size (mset kvs)" by simp
  with well_formed_length_items[OF w] show "len (snd r) = int (length kvs)"
    by (simp add: len_def)
  show "fst r = None" "invar h (snd r)" by (rule r)+
qed

lemma map_key_set_val:
  "i < length xs \<Longrightarrow> j < length (xs ! i) \<Longrightarrow>
   map (map key) (xs[i := (xs ! i)[j := (xs ! i ! j)\<lparr>val := v\<rparr>]]) = map (map key) xs"
proof -
  assume i: "i < length xs" and j: "j < length (xs ! i)"
  have "map key ((xs ! i)[j := (xs ! i ! j)\<lparr>val := v\<rparr>]) = (map key (xs ! i))[j := map key (xs ! i) ! j]"
    using j by (simp add: map_update)
  also have "\<dots> = map key (xs ! i)"
    by (rule list_update_id)
  finally have "map (map key) (xs[i := (xs ! i)[j := (xs ! i ! j)\<lparr>val := v\<rparr>]]) =
                (map (map key) xs)[i := map (map key) xs ! i]"
    using i by (simp add: map_update)
  then show ?thesis
    by (simp only: list_update_id)
qed

text \<open>Equations that evaluate the operations on a concrete table.\<close>

lemmas eval_simps = setitem_def delitem_def getitem_def get_def delete_def del_at_def update.simps
  resize.simps find_ht_def get_index_def hash_int_def RESIZE_MUL_def init_None Let_def

section \<open>The properties of the specification\<close>

text \<open>
  \<^bold>\<open>C1\<close> (round trip). On every reachable table, \<^verbatim>\<open>set(k, v)\<close> returns normally and a
  following \<^verbatim>\<open>get(k)\<close> returns \<open>v\<close>, whatever the table held before.
\<close>

theorem set_then_get:
  assumes "reachable h t"
  shows "fst (setitem h t k v) = None \<and> fst (getitem h (snd (setitem h t k v)) k) = Inr v"
proof -
  note i = reachable_invar[OF assms]
  note s = invar_setitem(1-3)[OF i, of k v]
  from s(2) have "well_formed h (snd (setitem h t k v))" by (simp add: invar_def)
  from well_formed_get[OF this, of k] s(1,3) show ?thesis
    by (simp add: getitem_def)
qed

theorem set_then_get_witness:
  "reachable hash_int (snd (hash_table_init hash_int (Some [(1, 10::int), (2, 20)]))) \<and>
   fst (getitem hash_int
         (snd (setitem hash_int (snd (hash_table_init hash_int (Some [(1, 10::int), (2, 20)]))) 7 70)) 7)
     = Inr 70"
  using set_then_get[OF reachable.init, of hash_int "Some [(1, 10::int), (2, 20)]" 7 70]
    reachable.init[of hash_int "Some [(1, 10::int), (2, 20)]"]
  by simp

text \<open>
  \<^bold>\<open>C2\<close> (resize transparency). Inserting any list of pairs with distinct keys into a fresh
  table raises nothing; afterwards every inserted key is found with its value, \<^verbatim>\<open>len()\<close> is
  the number of pairs, and the stored pairs are exactly the inserted ones, none lost and none
  twice. A resize check on a well-formed table raises nothing, restores the count it had
  before and keeps the stored pairs.
\<close>

theorem resize_transparency:
  "(distinct (map fst kvs) \<longrightarrow>
      (let r = set_all h kvs (snd (hash_table_init h None)) in
         fst r = None \<and>
         (\<forall>(k, v) \<in> set kvs. fst (getitem h (snd r) k) = Inr v) \<and>
         len (snd r) = int (length kvs) \<and>
         mset (items (snd r)) = mset kvs)) \<and>
   (well_formed h t \<longrightarrow>
      fst (resize h t) = None \<and>
      count_items (snd (resize h t)) = count_items t \<and>
      mset (items (snd (resize h t))) = mset (items t))"
proof (intro conjI impI)
  assume d: "distinct (map fst kvs)"
  let ?r = "set_all h kvs (snd (hash_table_init h None))"
  note r = set_all_fresh_distinct[OF d, of h]
  from r(2) have w: "well_formed h (snd ?r)" by (simp add: invar_def)
  have g: "\<forall>(k, v) \<in> set kvs. fst (getitem h (snd ?r) k) = Inr v"
    using d by (auto simp: getitem_def well_formed_get[OF w] r(3))
  with r(1,4,5) show "let r = ?r in fst r = None \<and>
         (\<forall>(k, v) \<in> set kvs. fst (getitem h (snd r) k) = Inr v) \<and>
         len (snd r) = int (length kvs) \<and> mset (items (snd r)) = mset kvs"
    by (simp add: Let_def)
qed (simp_all add: well_formed_resize_any)

theorem resize_transparency_witness:
  "distinct (map fst [(1::int, 10::int), (2, 20), (3, 30)]) \<and>
   well_formed hash_int \<lparr>table = [[\<lparr>key = 2, val = 20::int\<rparr>], [\<lparr>key = 1, val = 10\<rparr>]], count_items = 2\<rparr> \<and>
   fst (getitem hash_int
         (snd (set_all hash_int [(1, 10::int), (2, 20), (3, 30)] (snd (hash_table_init hash_int None)))) 2)
     = Inr 20 \<and>
   count_items (snd (resize hash_int
       \<lparr>table = [[\<lparr>key = 2, val = 20::int\<rparr>], [\<lparr>key = 1, val = 10\<rparr>]], count_items = 2\<rparr>)) = 2"
proof -
  let ?kvs = "[(1::int, 10::int), (2, 20), (3, 30)]"
  let ?t = "\<lparr>table = [[\<lparr>key = 2::int, val = 20::int\<rparr>], [\<lparr>key = 1, val = 10\<rparr>]], count_items = 2\<rparr>"
  have d: "distinct (map fst ?kvs)" by simp
  have w: "well_formed hash_int ?t"
    by (simp add: well_formed_def entries_def bucket_of_def hash_int_def Ball_def less_Suc_eq numeral_2_eq_2)
  from resize_transparency[of ?kvs hash_int ?t] d w show ?thesis
    by (simp add: Let_def)
qed

text \<open>
  \<^bold>\<open>C3\<close> (resize policy). With \<open>C\<close> the capacity and \<open>N\<close> the count of any table, the
  check leaves capacity \<open>C * 2\<close> if \<open>N * 2 > C\<close>, else \<open>C div 2\<close> if \<open>N * 4 < C\<close>, else it
  returns the table unchanged; grow is tested first. The check is what \<^verbatim>\<open>set\<close> runs after
  appending a new key and what \<^verbatim>\<open>delete\<close> runs after removing an item.
\<close>

theorem resize_policy:
  "(let C = int (length (table t)); N = count_items t in
      int (length (table (snd (resize h t)))) =
        (if N * 2 > C then C * 2 else if N * 4 < C then C div 2 else C) \<and>
      (\<not> N * 2 > C \<and> \<not> N * 4 < C \<longrightarrow> resize h t = (None, t))) \<and>
   (find_ht h t k = Inl KeyError \<longrightarrow>
      setitem h t k v =
        resize h (t\<lparr>table := (table t)[bucket_of h (length (table t)) k :=
                              table t ! bucket_of h (length (table t)) k @ [\<lparr>key = k, val = v\<rparr>]],
                    count_items := count_items t + 1\<rparr>)) \<and>
   (find_ht h t k' = Inr (i, j) \<longrightarrow>
      delitem h t k' =
        resize h (t\<lparr>table := (table t)[i := del_at j (table t ! i)],
                    count_items := count_items t - 1\<rparr>))"
proof -
  have "int (length (table (snd (resize h t)))) =
          new_capacity (count_items t) (int (length (table t)))"
    by (rule resize_capacity)
  moreover have "\<not> count_items t * 2 > int (length (table t)) \<and>
                 \<not> count_items t * 4 < int (length (table t)) \<longrightarrow> resize h t = (None, t)"
    by (simp add: resize_unfold)
  moreover have "find_ht h t k = Inl KeyError \<longrightarrow>
      setitem h t k v = resize h (append_item t (bucket_of h (length (table t)) k) k v)"
    by (simp add: setitem_def update_absent)
  moreover have "find_ht h t k' = Inr (i, j) \<longrightarrow> delitem h t k' = resize h (remove_item t i j)"
    by (simp add: delitem_def delete_def remove_item_def Let_def)
  ultimately show ?thesis
    by (simp add: Let_def new_capacity_def append_item_def remove_item_def)
qed

theorem resize_policy_witness:
  "find_ht hash_int \<lparr>table = [[], [\<lparr>key = 1, val = 10::int\<rparr>], [], []], count_items = 1\<rparr> 5 = Inl KeyError \<and>
   find_ht hash_int \<lparr>table = [[], [\<lparr>key = 1, val = 10::int\<rparr>], [], []], count_items = 1\<rparr> 1 = Inr (1, 0) \<and>
   resize hash_int \<lparr>table = [[], [\<lparr>key = 1, val = 10::int\<rparr>], [], []], count_items = 1\<rparr> =
     (None, \<lparr>table = [[], [\<lparr>key = 1, val = 10::int\<rparr>], [], []], count_items = 1\<rparr>) \<and>
   length (table (snd (setitem hash_int
       \<lparr>table = [[], [\<lparr>key = 1, val = 10::int\<rparr>], [], []], count_items = 1\<rparr> 5 50))) = 4 \<and>
   length (table (snd (delitem hash_int
       \<lparr>table = [[], [\<lparr>key = 1, val = 10::int\<rparr>], [], []], count_items = 1\<rparr> 1))) = 2"
proof -
  let ?t = "\<lparr>table = [[], [\<lparr>key = 1::int, val = 10::int\<rparr>], [], []], count_items = 1\<rparr>"
  have a: "find_ht hash_int ?t 5 = Inl KeyError"
    by (simp add: find_ht_def get_index_def hash_int_def)
  have b: "find_ht hash_int ?t 1 = Inr (1, 0)"
    by (simp add: find_ht_def get_index_def hash_int_def)
  note p = resize_policy[of ?t hash_int 5 50 1 1 0, unfolded Let_def]
  from p a b have "resize hash_int ?t = (None, ?t)" by simp
  moreover from p a
  have "setitem hash_int ?t 5 50 =
          resize hash_int \<lparr>table = [[], [\<lparr>key = 1, val = 10\<rparr>, \<lparr>key = 5, val = 50\<rparr>], [], []], count_items = 2\<rparr>"
    by (simp add: bucket_of_def hash_int_def)
  moreover from p a b
  have "delitem hash_int ?t 1 = resize hash_int \<lparr>table = [[], [], [], []], count_items = 0\<rparr>"
    by (simp add: del_at_def)
  moreover have "int (length (table (snd (resize hash_int
      \<lparr>table = [[], [\<lparr>key = 1, val = 10\<rparr>, \<lparr>key = 5, val = 50::int\<rparr>], [], []], count_items = 2\<rparr>)))) = 4"
    using resize_policy[of "\<lparr>table = [[], [\<lparr>key = 1, val = 10\<rparr>, \<lparr>key = 5, val = 50::int\<rparr>], [], []], count_items = 2\<rparr>"
        hash_int] by (simp add: Let_def)
  moreover have "int (length (table (snd (resize hash_int
      (\<lparr>table = [[], [], [], []], count_items = 0\<rparr> :: (int, int) hash_table))))) = 2"
    using resize_policy[of "\<lparr>table = [[], [], [], []], count_items = 0\<rparr> :: (int, int) hash_table" hash_int]
    by (simp add: Let_def)
  ultimately show ?thesis using a b by simp
qed

text \<open>
  \<^bold>\<open>C4\<close> (\<^verbatim>\<open>KeyError\<close>). On a reachable table, \<^verbatim>\<open>get(k)\<close> and \<^verbatim>\<open>delete(k)\<close> raise
  \<^verbatim>\<open>KeyError\<close> exactly when no stored pair has key \<open>k\<close>. When \<open>(k, w)\<close> is stored,
  \<^verbatim>\<open>get\<close> returns \<open>w\<close> and \<^verbatim>\<open>delete\<close> removes exactly that pair and lowers \<^verbatim>\<open>len()\<close> by
  one. After \<^verbatim>\<open>set(k, v)\<close> and \<^verbatim>\<open>delete(k)\<close>, \<^verbatim>\<open>get(k)\<close> raises \<^verbatim>\<open>KeyError\<close>.
\<close>

theorem key_not_found_iff:
  assumes "reachable h t"
  shows "(fst (getitem h t k) = Inl KeyError \<longleftrightarrow> k \<notin> fst ` set (items t)) \<and>
         (fst (delitem h t k) = Some KeyError \<longleftrightarrow> k \<notin> fst ` set (items t)) \<and>
         (\<forall>w. (k, w) \<in> set (items t) \<longrightarrow>
            fst (getitem h t k) = Inr w \<and>
            fst (delitem h t k) = None \<and>
            mset (items (snd (delitem h t k))) = mset (items t) - {#(k, w)#} \<and>
            len (snd (delitem h t k)) = len t - 1) \<and>
         fst (delitem h (snd (setitem h t k v)) k) = None \<and>
         fst (getitem h (snd (delitem h (snd (setitem h t k v)) k)) k) = Inl KeyError"
proof -
  note i = reachable_invar[OF assms]
  then have w: "well_formed h t" by (simp add: invar_def)
  have a: "fst (getitem h t k) = Inl KeyError \<longleftrightarrow> k \<notin> fst ` set (items t)"
    unfolding dom_contents_items[symmetric]
    by (auto simp: getitem_def well_formed_get[OF w] domIff split: option.splits)
  have b: "fst (delitem h t k) = Some KeyError \<longleftrightarrow> k \<notin> fst ` set (items t)"
    unfolding dom_contents_items[symmetric]
    using invar_delitem_absent[OF i, of k] invar_delitem_present(1)[OF i, of k]
    by (cases "k \<in> dom (contents t)") simp_all
  have c: "fst (getitem h t k) = Inr w \<and> fst (delitem h t k) = None \<and>
           mset (items (snd (delitem h t k))) = mset (items t) - {#(k, w)#} \<and>
           len (snd (delitem h t k)) = len t - 1"
    if kw: "(k, w) \<in> set (items t)" for w
  proof -
    from kw have cw: "contents t k = Some w"
      by (simp add: well_formed_items_iff[OF w])
    then have d: "k \<in> dom (contents t)" by auto
    note p = invar_delitem_present[OF i d]
    from p(2) have w': "well_formed h (snd (delitem h t k))" by (simp add: invar_def)
    from well_formed_remove_mset[OF w w' p(3) kw] p(1,4) cw show ?thesis
      by (simp add: getitem_def well_formed_get[OF w] len_def)
  qed
  let ?t1 = "snd (setitem h t k v)"
  note s = invar_setitem(2,3)[OF i, of k v]
  have d1: "k \<in> dom (contents ?t1)" by (simp add: s(2))
  note p = invar_delitem_present[OF s(1) d1]
  from p(2) have "well_formed h (snd (delitem h ?t1 k))" by (simp add: invar_def)
  from well_formed_get[OF this, of k] p(3)
  have e: "fst (getitem h (snd (delitem h ?t1 k)) k) = Inl KeyError"
    by (simp add: getitem_def)
  from a b c p(1) e show ?thesis by blast
qed

theorem key_not_found_iff_witness:
  "reachable hash_int (snd (hash_table_init hash_int (Some [(1, 10::int), (2, 20)]))) \<and>
   (1, 10) \<in> set (items (snd (hash_table_init hash_int (Some [(1, 10::int), (2, 20)])))) \<and>
   fst (getitem hash_int (snd (hash_table_init hash_int (Some [(1, 10::int), (2, 20)]))) 1) = Inr 10 \<and>
   fst (delitem hash_int (snd (hash_table_init hash_int (Some [(1, 10::int), (2, 20)]))) 1) = None \<and>
   fst (getitem hash_int (snd (hash_table_init hash_int (Some [(1, 10::int), (2, 20)]))) 5) = Inl KeyError"
proof -
  let ?t = "snd (hash_table_init hash_int (Some [(1, 10::int), (2, 20)]))"
  have r: "reachable hash_int ?t" by (rule reachable.init)
  have t: "?t = \<lparr>table = [[], [\<lparr>key = 1, val = 10\<rparr>], [\<lparr>key = 2, val = 20\<rparr>], []], count_items = 2\<rparr>"
    by (simp add: init_set_all set_all_def eval_simps)
  have i: "(1, 10) \<in> set (items ?t)" "5 \<notin> fst ` set (items ?t)"
    unfolding t by (simp_all add: items_def)
  from key_not_found_iff[OF r, of 1 0] key_not_found_iff[OF r, of 5 0] r i show ?thesis
    by blast
qed

text \<open>
  \<^bold>\<open>C5\<close> (uniqueness and count). After any sequence of \<^verbatim>\<open>set\<close> calls on a fresh table
  the stored keys are pairwise distinct and are exactly the keys of the calls, each key holds
  the value of its last call, and \<^verbatim>\<open>len()\<close> is the number of distinct keys. On every
  reachable table \<^verbatim>\<open>len()\<close> is the number of stored pairs; \<^verbatim>\<open>set\<close> raises it by one
  exactly for a new key and \<^verbatim>\<open>delete\<close> lowers it by one exactly when it succeeds.
\<close>

theorem uniqueness_and_count:
  "(let r = set_all h kvs (snd (hash_table_init h None)) in
      fst r = None \<and>
      distinct (map fst (items (snd r))) \<and>
      fst ` set (items (snd r)) = fst ` set kvs \<and>
      map_of (items (snd r)) = map_of (rev kvs) \<and>
      len (snd r) = int (card (fst ` set kvs))) \<and>
   (reachable h s \<longrightarrow>
      len s = int (length (items s)) \<and>
      len (snd (setitem h s k v)) = (if k \<in> fst ` set (items s) then len s else len s + 1) \<and>
      len (snd (delitem h s k)) = (if k \<in> fst ` set (items s) then len s - 1 else len s))"
proof (intro conjI impI)
  let ?r = "set_all h kvs (snd (hash_table_init h None))"
  from invar_set_all[OF invar_fresh(1), of h kvs]
  have r: "fst ?r = None" "invar h (snd ?r)" "contents (snd ?r) = map_of (rev kvs)"
    by (simp_all add: invar_fresh(2))
  from r(2) have w: "well_formed h (snd ?r)" by (simp add: invar_def)
  have "dom (contents (snd ?r)) = fst ` set kvs"
    unfolding r(3) by (simp add: dom_map_of_conv_image_fst)
  with well_formed_count[OF w] dom_contents_items[of "snd ?r"]
  have "fst ` set (items (snd ?r)) = fst ` set kvs" "len (snd ?r) = int (card (fst ` set kvs))"
    by (simp_all add: len_def)
  with r(1,3) well_formed_items_distinct[OF w]
  show "let r = ?r in fst r = None \<and> distinct (map fst (items (snd r))) \<and>
      fst ` set (items (snd r)) = fst ` set kvs \<and> map_of (items (snd r)) = map_of (rev kvs) \<and>
      len (snd r) = int (card (fst ` set kvs))"
    by (simp add: Let_def contents_def)
next
  assume "reachable h s"
  note i = reachable_invar[OF this]
  then have w: "well_formed h s" by (simp add: invar_def)
  show "len s = int (length (items s))"
    using well_formed_length_items[OF w] by (simp add: len_def)
  show "len (snd (setitem h s k v)) = (if k \<in> fst ` set (items s) then len s else len s + 1)"
    using invar_setitem(4)[OF i, of k v] by (simp add: len_def dom_contents_items)
  show "len (snd (delitem h s k)) = (if k \<in> fst ` set (items s) then len s - 1 else len s)"
    using invar_delitem_absent[OF i, of k] invar_delitem_present(4)[OF i, of k]
    by (simp add: len_def dom_contents_items)
qed

theorem uniqueness_and_count_witness:
  "reachable hash_int (snd (hash_table_init hash_int (Some [(1, 10::int), (2, 20)]))) \<and>
   len (snd (hash_table_init hash_int (Some [(1, 10::int), (2, 20)]))) =
     int (length (items (snd (hash_table_init hash_int (Some [(1, 10::int), (2, 20)]))))) \<and>
   len (snd (set_all hash_int [(1, 10::int), (2, 20), (1, 30)] (snd (hash_table_init hash_int None)))) = 2"
proof -
  have "fst ` set [(1, 10::int), (2, 20), (1::int, 30)] = {1, 2}" by auto
  then have "card (fst ` set [(1, 10::int), (2, 20), (1::int, 30)]) = 2" by simp
  with uniqueness_and_count[of hash_int "[(1, 10::int), (2, 20), (1, 30)]"
      "snd (hash_table_init hash_int (Some [(1, 10::int), (2, 20)]))"]
    reachable.init[of hash_int "Some [(1, 10::int), (2, 20)]"]
  show ?thesis by (simp add: Let_def)
qed

text \<open>
  \<^bold>\<open>C6\<close> (capacity at least one). A reachable table has at least one bucket, so the index
  computation returns a bucket position and no operation raises \<^verbatim>\<open>ZeroDivisionError\<close>.
  Inserting pairs with distinct keys into a fresh table, deleting all of them and inserting
  one more pair raises nothing, leaves \<^verbatim>\<open>len()\<close> at \<open>0\<close> after the deletions, and the last
  key is found.
\<close>

theorem capacity_positive:
  "(reachable h t \<longrightarrow>
      1 \<le> length (table t) \<and>
      (\<exists>i < length (table t). get_index h t k = Inr i) \<and>
      fst (setitem h t k v) = None \<and>
      fst (getitem h t k) \<noteq> Inl ZeroDivisionError \<and>
      fst (delitem h t k) \<noteq> Some ZeroDivisionError) \<and>
   (distinct (map fst kvs) \<longrightarrow>
      (let r1 = set_all h kvs (snd (hash_table_init h None));
           r2 = del_all h (map fst kvs) (snd r1);
           r3 = setitem h (snd r2) k' v'
       in fst r1 = None \<and> fst r2 = None \<and> len (snd r2) = 0 \<and> fst r3 = None \<and>
          fst (getitem h (snd r3) k') = Inr v'))"
proof (intro conjI impI)
  assume "reachable h t"
  note i = reachable_invar[OF this]
  then have w: "well_formed h t" by (simp add: invar_def)
  then have pos: "0 < length (table t)" unfolding well_formed_iff by blast
  then show "1 \<le> length (table t)" by linarith
  from pos show "\<exists>i < length (table t). get_index h t k = Inr i"
    by (simp add: get_index_pos bucket_of_less)
  show "fst (setitem h t k v) = None" by (rule invar_setitem(1)[OF i])
  show "fst (getitem h t k) \<noteq> Inl ZeroDivisionError"
    by (simp add: getitem_def well_formed_get[OF w] split: option.splits)
  show "fst (delitem h t k) \<noteq> Some ZeroDivisionError"
    using invar_delitem_absent[OF i, of k] invar_delitem_present(1)[OF i, of k]
    by (cases "k \<in> dom (contents t)") simp_all
next
  assume d: "distinct (map fst kvs)"
  let ?r1 = "set_all h kvs (snd (hash_table_init h None))"
  let ?r2 = "del_all h (map fst kvs) (snd ?r1)"
  let ?r3 = "setitem h (snd ?r2) k' v'"
  from invar_set_all[OF invar_fresh(1), of h kvs]
  have r1: "fst ?r1 = None" "invar h (snd ?r1)" "contents (snd ?r1) = map_of (rev kvs)"
    by (simp_all add: invar_fresh(2))
  have dom: "dom (contents (snd ?r1)) = set (map fst kvs)"
    unfolding r1(3) by (simp add: dom_map_of_conv_image_fst)
  then have sub: "set (map fst kvs) \<subseteq> dom (contents (snd ?r1))" by simp
  from r1(2) have "well_formed h (snd ?r1)" by (simp add: invar_def)
  from well_formed_count[OF this] dom d have c1: "count_items (snd ?r1) = int (length kvs)"
    using distinct_card[of "map fst kvs"] by simp
  from invar_del_all[OF r1(2) d sub] c1
  have r2: "fst ?r2 = None" "invar h (snd ?r2)" "len (snd ?r2) = 0"
    by (simp_all add: len_def)
  note s = invar_setitem(1-3)[OF r2(2), of k' v']
  from s(2) have "well_formed h (snd ?r3)" by (simp add: invar_def)
  from well_formed_get[OF this, of k'] s(3) have "fst (getitem h (snd ?r3) k') = Inr v'"
    by (simp add: getitem_def)
  with r1(1) r2(1,3) s(1)
  show "let r1 = ?r1; r2 = del_all h (map fst kvs) (snd r1); r3 = setitem h (snd r2) k' v'
       in fst r1 = None \<and> fst r2 = None \<and> len (snd r2) = 0 \<and> fst r3 = None \<and>
          fst (getitem h (snd r3) k') = Inr v'"
    by (simp add: Let_def)
qed

theorem capacity_positive_witness:
  "reachable hash_int (snd (hash_table_init hash_int (Some [(1, 10::int), (2, 20)]))) \<and>
   distinct (map fst [(0::int, 0::int), (1, 1), (2, 2), (3, 3), (4, 4), (5, 5), (6, 6), (7, 7), (8, 8), (9, 9)]) \<and>
   1 \<le> length (table (snd (hash_table_init hash_int (Some [(1, 10::int), (2, 20)])))) \<and>
   fst (getitem hash_int
     (snd (setitem hash_int
       (snd (del_all hash_int [0, 1, 2, 3, 4, 5, 6, 7, 8, 9]
         (snd (set_all hash_int
           [(0, 0::int), (1, 1), (2, 2), (3, 3), (4, 4), (5, 5), (6, 6), (7, 7), (8, 8), (9, 9)]
           (snd (hash_table_init hash_int None))))))
       42 7)) 42) = Inr 7"
proof -
  let ?kvs = "[(0::int, 0::int), (1, 1), (2, 2), (3, 3), (4, 4), (5, 5), (6, 6), (7, 7), (8, 8), (9, 9)]"
  have d: "distinct (map fst ?kvs)" by simp
  from capacity_positive[of hash_int "snd (hash_table_init hash_int (Some [(1, 10::int), (2, 20)]))" 0 0
      ?kvs 42 7]
    reachable.init[of hash_int "Some [(1, 10::int), (2, 20)]"] d
  show ?thesis by (simp add: Let_def)
qed

text \<open>
  \<^bold>\<open>C7\<close> (capacity floor), as amended. The shrink step has no floor at the initial capacity
  \<open>4\<close>: one insertion followed by its deletion leaves two buckets. What holds on every
  reachable table is that the capacity is at least \<open>1\<close> and at least twice \<^verbatim>\<open>len()\<close>.
\<close>

theorem capacity_floor:
  assumes "reachable h t"
  shows "1 \<le> length (table t) \<and> 2 * len t \<le> int (length (table t))"
proof -
  from reachable_invar[OF assms]
  have "0 < length (table t)" "2 * count_items t \<le> int (length (table t))"
    unfolding invar_def well_formed_iff by blast+
  then show ?thesis
    unfolding len_def by linarith
qed

text \<open>The claim as first stated, with floor \<open>4\<close>, fails after one insertion and one deletion.\<close>

theorem capacity_floor_counterexample:
  "reachable hash_int
     (snd (delitem hash_int (snd (setitem hash_int (snd (hash_table_init hash_int None)) 1 (10::int))) 1)) \<and>
   \<not> 4 \<le> length (table
     (snd (delitem hash_int (snd (setitem hash_int (snd (hash_table_init hash_int None)) 1 (10::int))) 1)))"
proof -
  have "reachable hash_int
     (snd (delitem hash_int (snd (setitem hash_int (snd (hash_table_init hash_int None)) 1 (10::int))) 1))"
    by (intro reachable.del reachable.set reachable.init)
  moreover have "snd (delitem hash_int (snd (setitem hash_int (snd (hash_table_init hash_int None)) 1 (10::int))) 1)
      = \<lparr>table = [[], []], count_items = 0\<rparr>"
    by (simp add: eval_simps numeral_eq_Suc)
  ultimately show ?thesis by simp
qed

theorem capacity_floor_witness:
  "reachable hash_int
     (snd (delitem hash_int (snd (setitem hash_int (snd (hash_table_init hash_int None)) 1 (10::int))) 1)) \<and>
   1 \<le> length (table
     (snd (delitem hash_int (snd (setitem hash_int (snd (hash_table_init hash_int None)) 1 (10::int))) 1)))"
proof -
  have r: "reachable hash_int
     (snd (delitem hash_int (snd (setitem hash_int (snd (hash_table_init hash_int None)) 1 (10::int))) 1))"
    by (intro reachable.del reachable.set reachable.init)
  from capacity_floor[OF r] r show ?thesis by simp
qed

text \<open>
  \<^bold>\<open>C8\<close> (update in place). When the chain search finds the key at position \<open>(i, j)\<close>,
  \<^verbatim>\<open>set\<close> only replaces the value of that item and runs no resize check: count, capacity and
  the keys of every chain stay as they were. On a reachable table a second \<^verbatim>\<open>set(k, v)\<close>
  changes nothing at all, and \<^verbatim>\<open>get(k)\<close> returns \<open>v\<close>.
\<close>

theorem update_in_place:
  "(find_ht h t k = Inr (i, j) \<longrightarrow>
      setitem h t k v =
        (None, t\<lparr>table := (table t)[i := (table t ! i)[j := (table t ! i ! j)\<lparr>val := v\<rparr>]]\<rparr>) \<and>
      len (snd (setitem h t k v)) = len t \<and>
      length (table (snd (setitem h t k v))) = length (table t) \<and>
      map (map key) (table (snd (setitem h t k v))) = map (map key) (table t)) \<and>
   (reachable h s \<longrightarrow>
      (let s1 = snd (setitem h s k v) in
         setitem h s1 k v = (None, s1) \<and>
         len (snd (setitem h s1 k v)) = len s1 \<and>
         fst (getitem h (snd (setitem h s1 k v)) k) = Inr v))"
proof (intro conjI impI)
  assume f: "find_ht h t k = Inr (i, j)"
  note b = find_ht_Inr[OF f]
  from f show e: "setitem h t k v =
        (None, t\<lparr>table := (table t)[i := (table t ! i)[j := (table t ! i ! j)\<lparr>val := v\<rparr>]]\<rparr>)"
    by (simp add: setitem_def update_present set_val_def)
  show "len (snd (setitem h t k v)) = len t" by (simp add: e len_def)
  show "length (table (snd (setitem h t k v))) = length (table t)" by (simp add: e)
  from b have "i < length (table t)" "j < length (table t ! i)" by blast+
  then show "map (map key) (table (snd (setitem h t k v))) = map (map key) (table t)"
    by (simp add: e map_key_set_val)
next
  assume "reachable h s"
  note i = reachable_invar[OF this]
  let ?s1 = "snd (setitem h s k v)"
  note st = invar_setitem(2,3)[OF i, of k v]
  from st(1) have w1: "well_formed h ?s1" by (simp add: invar_def)
  have same: "setitem h ?s1 k v = (None, ?s1)"
  proof (rule well_formed_find_ht_cases[OF w1, of k])
    assume "k \<notin> dom (contents ?s1)"
    then show ?thesis by (simp add: st(2))
  next
    fix i j
    assume p: "find_ht h ?s1 k = Inr (i, j)" "i < length (table ?s1)" "j < length (table ?s1 ! i)"
      "contents ?s1 k = Some (val (table ?s1 ! i ! j))"
    from p(4) have "val (table ?s1 ! i ! j) = v" by (simp add: st(2))
    then have "(table ?s1 ! i ! j)\<lparr>val := v\<rparr> = table ?s1 ! i ! j" by auto
    then have "set_val ?s1 i j v = ?s1"
      by (simp add: set_val_def)
    with p(1) show ?thesis
      by (simp add: setitem_def[of h ?s1] update_present)
  qed
  from well_formed_get[OF w1, of k] st(2) have "fst (getitem h ?s1 k) = Inr v"
    by (simp add: getitem_def)
  with same show "let s1 = ?s1 in setitem h s1 k v = (None, s1) \<and>
         len (snd (setitem h s1 k v)) = len s1 \<and>
         fst (getitem h (snd (setitem h s1 k v)) k) = Inr v"
    by (simp add: Let_def)
qed

theorem update_in_place_witness:
  "find_ht hash_int \<lparr>table = [[], [\<lparr>key = 1, val = 10::int\<rparr>], [], []], count_items = 1\<rparr> 1 = Inr (1, 0) \<and>
   reachable hash_int (snd (hash_table_init hash_int (Some [(1, 10::int), (2, 20)]))) \<and>
   setitem hash_int \<lparr>table = [[], [\<lparr>key = 1, val = 10::int\<rparr>], [], []], count_items = 1\<rparr> 1 11 =
     (None, \<lparr>table = [[], [\<lparr>key = 1, val = 11\<rparr>], [], []], count_items = 1\<rparr>) \<and>
   fst (getitem hash_int
     (snd (setitem hash_int
       (snd (setitem hash_int (snd (hash_table_init hash_int (Some [(1, 10::int), (2, 20)]))) 2 21)) 2 21)) 2)
     = Inr 21"
proof -
  let ?t = "\<lparr>table = [[], [\<lparr>key = 1::int, val = 10::int\<rparr>], [], []], count_items = 1\<rparr>"
  have f: "find_ht hash_int ?t 1 = Inr (1, 0)"
    by (simp add: find_ht_def get_index_def hash_int_def)
  from update_in_place[of hash_int ?t 1 1 0 11 "snd (hash_table_init hash_int (Some [(1, 10::int), (2, 20)]))"]
    f reachable.init[of hash_int "Some [(1, 10::int), (2, 20)]"]
  have "setitem hash_int ?t 1 11 = (None, \<lparr>table = [[], [\<lparr>key = 1, val = 11\<rparr>], [], []], count_items = 1\<rparr>)"
    by simp
  moreover
  from update_in_place[of hash_int ?t 2 1 0 21 "snd (hash_table_init hash_int (Some [(1, 10::int), (2, 20)]))"]
    reachable.init[of hash_int "Some [(1, 10::int), (2, 20)]"]
  have "fst (getitem hash_int
     (snd (setitem hash_int
       (snd (setitem hash_int (snd (hash_table_init hash_int (Some [(1, 10::int), (2, 20)]))) 2 21)) 2 21)) 2)
     = Inr 21"
    unfolding Let_def by blast
  ultimately show ?thesis
    using f reachable.init[of hash_int "Some [(1, 10::int), (2, 20)]"] by simp
qed

text \<open>
  \<^bold>\<open>C9\<close> (iteration). \<^verbatim>\<open>items()\<close> yields one pair per stored item, bucket by bucket and
  in chain order. On a reachable table no key occurs twice, the number of pairs is
  \<^verbatim>\<open>len()\<close>, and \<open>(k, v)\<close> is yielded exactly when \<^verbatim>\<open>get(k)\<close> returns \<open>v\<close>. A table built
  from \<^verbatim>\<open>{"a": 1, "b": 2, "c": 3}\<close> yields exactly these three pairs, under any hash.
\<close>

theorem items_complete:
  "items t = concat (map (map (\<lambda>it. (key it, val it))) (table t)) \<and>
   (reachable h t \<longrightarrow>
      distinct (map fst (items t)) \<and>
      int (length (items t)) = len t \<and>
      (\<forall>k v. (k, v) \<in> set (items t) \<longleftrightarrow> fst (getitem h t k) = Inr v)) \<and>
   fst (hash_table_init h' (Some [(''a'', 1::int), (''b'', 2), (''c'', 3)])) = None \<and>
   set (items (snd (hash_table_init h' (Some [(''a'', 1::int), (''b'', 2), (''c'', 3)])))) =
     {(''a'', 1), (''b'', 2), (''c'', 3)} \<and>
   length (items (snd (hash_table_init h' (Some [(''a'', 1::int), (''b'', 2), (''c'', 3)])))) = 3"
proof (intro conjI impI)
  show "items t = concat (map (map (\<lambda>it. (key it, val it))) (table t))"
    by (simp add: items_def)
next
  assume "reachable h t"
  then have w: "well_formed h t" using reachable_invar by (auto simp: invar_def)
  show "distinct (map fst (items t))" by (rule well_formed_items_distinct[OF w])
  show "int (length (items t)) = len t"
    using well_formed_length_items[OF w] by (simp add: len_def)
  show "\<forall>k v. (k, v) \<in> set (items t) \<longleftrightarrow> fst (getitem h t k) = Inr v"
    by (auto simp: well_formed_items_iff[OF w] getitem_def well_formed_get[OF w] split: option.splits)
next
  let ?kvs = "[(''a'', 1::int), (''b'', 2), (''c'', 3)]"
  let ?r = "hash_table_init h' (Some ?kvs)"
  have d: "distinct (map fst ?kvs)" by simp
  note r = set_all_fresh_distinct(1,4)[OF d, of h', folded init_set_all]
  show "fst ?r = None" by (rule r(1))
  from r(2) have "set_mset (mset (items (snd ?r))) = set_mset (mset ?kvs)" by simp
  then show "set (items (snd ?r)) = {(''a'', 1), (''b'', 2), (''c'', 3)}"
    by (simp only: set_mset_mset) auto
  from r(2) have "size (mset (items (snd ?r))) = size (mset ?kvs)" by simp
  then show "length (items (snd ?r)) = 3" by simp
qed

theorem items_complete_witness:
  "reachable hash_int (snd (hash_table_init hash_int (Some [(1, 10::int), (2, 20)]))) \<and>
   distinct (map fst (items (snd (hash_table_init hash_int (Some [(1, 10::int), (2, 20)]))))) \<and>
   items (snd (hash_table_init hash_int (Some [(1, 10::int), (2, 20)]))) = [(1, 10), (2, 20)]"
proof -
  let ?t = "snd (hash_table_init hash_int (Some [(1, 10::int), (2, 20)]))"
  have r: "reachable hash_int ?t" by (rule reachable.init)
  have t: "table ?t = [[], [\<lparr>key = 1, val = 10\<rparr>], [\<lparr>key = 2, val = 20\<rparr>], []]"
    by (simp add: init_set_all set_all_def eval_simps)
  from items_complete[of ?t hash_int] r have
    "items ?t = concat (map (map (\<lambda>it. (key it, val it))) (table ?t))"
    "distinct (map fst (items ?t))"
    by blast+
  with r show ?thesis by (simp add: t)
qed

text \<open>
  \<^bold>\<open>C10\<close> (failure writes nothing). When \<^verbatim>\<open>delete(k)\<close> raises \<^verbatim>\<open>KeyError\<close> the table is
  the one it was given, and \<^verbatim>\<open>get(k)\<close> never changes the table. Both raise \<^verbatim>\<open>KeyError\<close>
  exactly when the chain search does, which happens before any write.
\<close>

theorem key_error_frame:
  "(fst (delitem h t k) = Some KeyError \<longrightarrow> snd (delitem h t k) = t) \<and>
   (fst (delitem h t k) = Some KeyError \<longleftrightarrow> find_ht h t k = Inl KeyError) \<and>
   snd (getitem h t k) = t \<and>
   (fst (getitem h t k) = Inl KeyError \<longleftrightarrow> find_ht h t k = Inl KeyError)"
proof -
  have "fst (delete h t k) = Some KeyError \<longrightarrow> snd (delete h t k) = t"
    by (auto simp: delete_KeyError_iff) (simp add: delete_def)
  moreover have "fst (getitem h t k) = Inl KeyError \<longleftrightarrow> find_ht h t k = Inl KeyError"
    by (cases "find_ht h t k") (auto simp: getitem_def get_def)
  ultimately show ?thesis
    by (simp add: delitem_def delete_KeyError_iff getitem_def)
qed

theorem key_error_frame_witness:
  "fst (delitem hash_int \<lparr>table = [[], [\<lparr>key = 1, val = 10::int\<rparr>], [], []], count_items = 1\<rparr> 5)
     = Some KeyError \<and>
   snd (delitem hash_int \<lparr>table = [[], [\<lparr>key = 1, val = 10::int\<rparr>], [], []], count_items = 1\<rparr> 5)
     = \<lparr>table = [[], [\<lparr>key = 1, val = 10::int\<rparr>], [], []], count_items = 1\<rparr>"
proof -
  let ?t = "\<lparr>table = [[], [\<lparr>key = 1::int, val = 10::int\<rparr>], [], []], count_items = 1\<rparr>"
  have f: "find_ht hash_int ?t 5 = Inl KeyError"
    by (simp add: find_ht_def get_index_def hash_int_def)
  from key_error_frame[of hash_int ?t 5] f show ?thesis by simp
qed

end
